theory Spec2Isabelle
  imports Main
begin

section \<open>The lexer of jccc (src/lexer/lex.c)\<close>

text \<open>
  A shallow embedding of \<^verbatim>\<open>lex.c\<close>: the classifier (\<^verbatim>\<open>ttype_one_char\<close>,
  \<^verbatim>\<open>ttype_many_chars\<close>, \<^verbatim>\<open>ttype_from_string\<close>), the skip-scanner
  (\<^verbatim>\<open>skip_to_token\<close>), the token reader (\<^verbatim>\<open>lex\<close>) and the putback buffer
  (\<^verbatim>\<open>unlex\<close>).

  Conventions of the model.
  \<^item> A C string is the list of its characters before the terminating NUL; a loop that
    runs to the terminator also stops at a NUL inside the list.
  \<^item> The result of \<^verbatim>\<open>getc\<close>/\<^verbatim>\<open>fgetc\<close>, an \<^verbatim>\<open>int\<close>, is a \<open>char option\<close>:
    \<open>None\<close> is \<^verbatim>\<open>EOF\<close> (-1), \<open>Some c\<close> the byte read.
  \<^item> \<^verbatim>\<open>char\<close> is signed, as on the platforms where \<^verbatim>\<open>skip_to_token\<close> stops at the
    end of a file at all: the conversion of \<^verbatim>\<open>EOF\<close> to \<^verbatim>\<open>char\<close> is the byte 0xFF,
    and a \<^verbatim>\<open>char\<close> holding 0xFF compares equal to \<^verbatim>\<open>EOF\<close>.
  \<^item> The contents of a token are the C string in its buffer, not the buffer: the model
    does not say what a write past \<^verbatim>\<open>contents[TOKEN_LENGTH - 1]\<close> does. The source
    stays inside the buffer when \<^verbatim>\<open>TOKEN_LENGTH\<close> is at least 14, the size of
    "[end of file]" with its terminator.
  \<^item> \<^verbatim>\<open>lex.h\<close> is not part of the sources at hand. Its two macros \<^verbatim>\<open>TOKEN_LENGTH\<close>
    and \<^verbatim>\<open>TOKEN_PUTBACKS\<close> are parameters of the functions that use them; the
    members of \<^verbatim>\<open>TokenType\<close>, \<^verbatim>\<open>Token\<close> and \<^verbatim>\<open>Lexer\<close> are the ones
    \<^verbatim>\<open>lex.c\<close> uses.
\<close>

subsection \<open>Characters\<close>

definition NUL :: char where "NUL = CHR 0x00"
definition TAB :: char where "TAB = CHR 0x09"
definition NEWLINE :: char where "NEWLINE = CHR 0x0A"
definition SPACE :: char where "SPACE = CHR 0x20"
definition DQUOTE :: char where "DQUOTE = CHR 0x22"
definition SQUOTE :: char where "SQUOTE = CHR 0x27"
definition STAR :: char where "STAR = CHR 0x2A"
definition SLASH :: char where "SLASH = CHR 0x2F"

text \<open>The value of \<^verbatim>\<open>(char) EOF\<close>: the byte 0xFF.\<close>

definition EOF_char :: char where "EOF_char = CHR 0xFF"

text \<open>The conversion of an \<^verbatim>\<open>int\<close> read by \<^verbatim>\<open>getc\<close> to \<^verbatim>\<open>char\<close>.\<close>

fun to_char :: "char option \<Rightarrow> char" where
  "to_char None = EOF_char"
| "to_char (Some c) = c"

text \<open>\<^verbatim>\<open>c >= '0' && c <= '9'\<close>, on the character's code.\<close>

definition is_digit :: "char \<Rightarrow> bool" where
  "is_digit c = (48 \<le> (of_char c :: nat) \<and> (of_char c :: nat) \<le> 57)"

text \<open>
  \<^verbatim>\<open>isalnum\<close> of the C library, in the C locale: the ASCII digits and letters. It is 0
  on \<^verbatim>\<open>EOF\<close> and on every byte above 0x7F.
\<close>

definition isalnum :: "char \<Rightarrow> bool" where
  "isalnum c =
     (let n = (of_char c :: nat)
      in (48 \<le> n \<and> n \<le> 57) \<or> (65 \<le> n \<and> n \<le> 90) \<or> (97 \<le> n \<and> n \<le> 122))"

subsection \<open>Helpers of the token reader\<close>

text \<open>\<^verbatim>\<open>in_string\<close>: is the character in the string? The loop ends at the terminator.\<close>

fun in_string :: "char \<Rightarrow> string \<Rightarrow> bool" where
  "in_string c [] = False"
| "in_string c (d # s) = (if d = NUL then False else if d = c then True else in_string c s)"

definition single_char_tokens :: string where
  "single_char_tokens = ''(){}[];''"

definition is_valid_numeric_or_id_char :: "char \<Rightarrow> bool" where
  "is_valid_numeric_or_id_char c = (isalnum c \<or> c = CHR ''_'' \<or> c = CHR ''.'')"

subsection \<open>Tokens and the classifier\<close>

datatype TokenType =
    TT_NO_TOKEN | TT_EOF | TT_NEWLINE
  | TT_OPAREN | TT_CPAREN | TT_OBRACE | TT_CBRACE | TT_OBRACKET | TT_CBRACKET | TT_SEMI
  | TT_LITERAL | TT_IDENTIFIER

text \<open>
  \<^verbatim>\<open>Token\<close>: \<open>contents\<close> is the C string held in \<^verbatim>\<open>char contents[TOKEN_LENGTH]\<close>;
  the fields \<^verbatim>\<open>length\<close> and \<^verbatim>\<open>type\<close> are \<open>length_t\<close> and \<open>type_t\<close> here.
\<close>

record Token =
  contents :: string
  length_t :: nat
  type_t :: TokenType

fun ttype_one_char :: "char \<Rightarrow> TokenType" where
  "ttype_one_char c =
     (if c = CHR ''('' then TT_OPAREN
      else if c = CHR '')'' then TT_CPAREN
      else if c = CHR ''{'' then TT_OBRACE
      else if c = CHR ''}'' then TT_CBRACE
      else if c = CHR ''['' then TT_OBRACKET
      else if c = CHR '']'' then TT_CBRACKET
      else if c = CHR '';'' then TT_SEMI
      else TT_NO_TOKEN)"

text \<open>
  The \<^verbatim>\<open>for\<close> loop of \<^verbatim>\<open>ttype_many_chars\<close>. It either returns from the function
  (\<open>Return\<close>) or runs to the terminator and leaves \<^verbatim>\<open>i\<close>, \<^verbatim>\<open>all_numeric\<close>,
  \<^verbatim>\<open>count_fs\<close> and \<^verbatim>\<open>count_us\<close> (\<open>Done\<close>). The counters are \<open>nat\<close>: the
  source's \<^verbatim>\<open>int\<close> counters cannot overflow on a text shorter than \<open>2 ^ 31\<close>.
\<close>

datatype scan = Return TokenType | Done nat bool nat nat

fun many_chars_loop :: "string \<Rightarrow> nat \<Rightarrow> bool \<Rightarrow> nat \<Rightarrow> nat \<Rightarrow> scan" where
  "many_chars_loop [] i all_numeric count_fs count_us = Done i all_numeric count_fs count_us"
| "many_chars_loop (c # s) i all_numeric count_fs count_us =
     (if c = NUL then Done i all_numeric count_fs count_us
      else if c = CHR ''.'' then Return TT_LITERAL
      else
        let count_fs' = (if c = CHR ''f'' then count_fs + 1 else count_fs);
            count_us' = (if c = CHR ''u'' then count_us + 1 else count_us);
            all_numeric' = (if \<not> is_digit c \<and> c \<noteq> CHR ''u'' then False else all_numeric)
        in if c = SQUOTE \<or> c = DQUOTE then Return TT_LITERAL
           else many_chars_loop s (i + 1) all_numeric' count_fs' count_us')"

text \<open>
  \<^verbatim>\<open>ttype_many_chars\<close>. The argument \<^verbatim>\<open>contents\<close> (\<open>text\<close> here, \<open>contents\<close>
  being the field of \<open>Token\<close>) is a pointer: \<open>None\<close> is \<^verbatim>\<open>NULL\<close>.
  \<^verbatim>\<open>contents[i - 1]\<close> is read only when \<^verbatim>\<open>count_us == 1\<close>, hence \<open>i \<ge> 1\<close>.
\<close>

fun ttype_many_chars :: "string option \<Rightarrow> TokenType" where
  "ttype_many_chars None = TT_NO_TOKEN"
| "ttype_many_chars (Some text) =
     (case many_chars_loop text 0 True 0 0 of
        Return tt \<Rightarrow> tt
      | Done i all_numeric count_fs count_us \<Rightarrow>
          if all_numeric then
            (if count_us = 1 \<and> text ! (i - 1) = CHR ''u'' then TT_LITERAL
             else if count_us = 0 then TT_LITERAL
             else TT_IDENTIFIER)
          else TT_IDENTIFIER)"

text \<open>\<^verbatim>\<open>ttype_from_string\<close>; \<^verbatim>\<open>strlen\<close> counts up to the terminator.\<close>

definition strlen :: "string \<Rightarrow> nat" where
  "strlen s = length (takeWhile (\<lambda>c. c \<noteq> NUL) s)"

definition ttype_from_string :: "string \<Rightarrow> TokenType" where
  "ttype_from_string text =
     (if strlen text = 1 \<and> ttype_one_char (hd text) \<noteq> TT_NO_TOKEN
      then ttype_one_char (hd text)
      else ttype_many_chars (Some text))"

subsection \<open>The stream\<close>

text \<open>
  \<^verbatim>\<open>FILE\<close>: the bytes of the file and the position of the cursor. The lexer is the
  only reader and nothing writes, so the bytes never change.
\<close>

record FILE =
  data :: string
  pos :: nat

text \<open>\<^verbatim>\<open>fgetc\<close> and \<^verbatim>\<open>getc\<close>: the byte at the cursor, or \<^verbatim>\<open>EOF\<close> at the end.\<close>

definition fgetc :: "FILE \<Rightarrow> char option \<times> FILE" where
  "fgetc f =
     (if pos f < length (data f) then (Some (data f ! pos f), f\<lparr>pos := pos f + 1\<rparr>)
      else (None, f))"

definition getc :: "FILE \<Rightarrow> char option \<times> FILE" where
  "getc f = fgetc f"

text \<open>
  \<^verbatim>\<open>fseek(fp, off, SEEK_CUR)\<close>: it fails, and leaves the cursor, when the new position
  would be negative.
\<close>

definition fseek_cur :: "FILE \<Rightarrow> int \<Rightarrow> FILE" where
  "fseek_cur f off =
     (if int (pos f) + off < 0 then f else f\<lparr>pos := nat (int (pos f) + off)\<rparr>)"

text \<open>
  \<^verbatim>\<open>ungetc(c, fp)\<close>: nothing when \<^verbatim>\<open>c\<close> is \<^verbatim>\<open>EOF\<close>. \<^verbatim>\<open>lex\<close> pushes back the
  byte it has just read, which the next read returns: the cursor steps back by one.
\<close>

fun ungetc :: "char option \<Rightarrow> FILE \<Rightarrow> FILE" where
  "ungetc None f = f"
| "ungetc (Some c) f = f\<lparr>pos := pos f - 1\<rparr>"

subsection \<open>The lexer and its errors\<close>

text \<open>
  \<^verbatim>\<open>Lexer\<close>: the stream, the array \<^verbatim>\<open>Token unlexed[TOKEN_PUTBACKS]\<close> and the number
  of its slots in use.
\<close>

record Lexer =
  fp :: FILE
  unlexed :: "Token list"
  unlexed_count :: int

text \<open>
  The three places that print an error and return -1:
  \<^item> \<open>InternalInvariantViolation\<close>: "internal error: did not skip whitespace correctly";
  \<^item> \<open>IdentifierTooLong\<close>: "identifier too long, over %d characters";
  \<^item> \<open>PushbackBufferFull\<close>: "internal: tried to unlex more than %d tokens at a time".
  A status is \<open>Inr ()\<close> for the return value 0 and \<open>Inl e\<close> for -1 after the message
  of \<open>e\<close>.
\<close>

datatype error = InternalInvariantViolation | IdentifierTooLong | PushbackBufferFull

type_synonym status = "error + unit"

subsection \<open>The skip-scanner\<close>

text \<open>
  The \<^verbatim>\<open>if\<close>/\<^verbatim>\<open>else if\<close> chain at the head of the loop body of
  \<^verbatim>\<open>skip_to_token\<close>: \<open>Some (in_block, pass)\<close> are the variables after the chain,
  \<open>None\<close> is its fourth branch, which seeks back by one and returns 0.
\<close>

definition skip_chain :: "char \<Rightarrow> char \<Rightarrow> int \<Rightarrow> int \<Rightarrow> (int \<times> int) option" where
  "skip_chain cur prev in_block pass =
     (if cur = SLASH \<and> prev = SLASH \<and> in_block = 0 then Some (1, pass)
      else if cur = STAR \<and> prev = SLASH \<and> in_block = 0 then Some (2, 2)
      else if (in_block = 1 \<and> cur = NEWLINE) \<or>
              (in_block = 2 \<and> cur = SLASH \<and> prev = STAR \<and> pass \<le> 0) then Some (0, pass)
      else if prev = SLASH \<and> \<not> (cur = STAR \<or> cur = SLASH) \<and> in_block = 0 then None
      else Some (in_block, pass))"

text \<open>
  The \<^verbatim>\<open>while\<close> loop of \<^verbatim>\<open>skip_to_token\<close>, from the state \<^verbatim>\<open>prev\<close>,
  \<^verbatim>\<open>in_block\<close>, \<^verbatim>\<open>pass\<close>. \<^verbatim>\<open>cur\<close> is a \<^verbatim>\<open>char\<close>, so the test against
  \<^verbatim>\<open>EOF\<close> is on the converted value. \<^verbatim>\<open>pass\<close> is an unbounded integer here: the
  source's \<^verbatim>\<open>int\<close> would need \<open>2 ^ 31\<close> iterations to overflow.
\<close>

function skip_loop :: "FILE \<Rightarrow> char \<Rightarrow> int \<Rightarrow> int \<Rightarrow> int \<times> FILE" where
  "skip_loop f prev in_block pass =
     (case fgetc f of
        (r, f1) \<Rightarrow>
          let cur = to_char r in
          if cur = EOF_char then (- 1, f1)
          else
            (case skip_chain cur prev in_block pass of
               None \<Rightarrow> (0, fseek_cur f1 (- 1))
             | Some (in_block1, pass1) \<Rightarrow>
                 if \<not> (cur = SPACE \<or> cur = TAB \<or> cur = SLASH) \<and> in_block1 = 0
                 then (0, fseek_cur f1 (- 1))
                 else skip_loop f1 cur in_block1 (pass1 - 1)))"
  by pat_completeness auto
termination
proof (relation "measure (\<lambda>(f, prev, in_block, pass). length (data f) - pos f)")
qed (auto simp: fgetc_def split: if_splits option.splits)

declare skip_loop.simps [simp del]

text \<open>\<^verbatim>\<open>skip_to_token\<close>, on the stream of the lexer: the return value and the stream.\<close>

definition skip_to_token :: "FILE \<Rightarrow> int \<times> FILE" where
  "skip_to_token f =
     (case fgetc f of
        (r, f1) \<Rightarrow>
          let cur = to_char r in
          if cur \<noteq> EOF_char then
            (if \<not> (cur = SPACE \<or> cur = TAB \<or> cur = SLASH) then (0, fseek_cur f1 (- 1))
             else skip_loop f1 cur 0 0)
          else (- 1, f1))"

subsection \<open>The token reader and the putback buffer\<close>

text \<open>
  The \<^verbatim>\<open>for (;;)\<close> loop of \<^verbatim>\<open>lex\<close>. \<open>buf\<close> is what \<^verbatim>\<open>t->contents\<close> holds so far
  and \<^verbatim>\<open>pos\<close> is its length. The loop ends with the character that broke it
  (\<open>Inr c\<close>) or with the error.
\<close>

function lex_id_loop :: "nat \<Rightarrow> FILE \<Rightarrow> string \<Rightarrow> (error + char option) \<times> string \<times> FILE" where
  "lex_id_loop TOKEN_LENGTH f buf =
     (case getc f of
        (c, f1) \<Rightarrow>
          if \<not> is_valid_numeric_or_id_char (to_char c) then (Inr c, buf, f1)
          else if int (length buf) \<ge> int TOKEN_LENGTH - 1 then (Inl IdentifierTooLong, buf, f1)
          else lex_id_loop TOKEN_LENGTH f1 (buf @ [to_char c]))"
  by pat_completeness auto
termination
proof (relation "measure (\<lambda>(TOKEN_LENGTH, f, buf). length (data f) - pos f)")
qed (auto simp: getc_def fgetc_def is_valid_numeric_or_id_char_def isalnum_def EOF_char_def
      split: if_splits option.splits)

declare lex_id_loop.simps [simp del]

text \<open>The texts of the two tokens that have no text of their own.\<close>

definition eof :: string where "eof = ''[end of file]''"
definition nline :: string where "nline = ''[newline]''"

text \<open>
  \<^verbatim>\<open>lex\<close>: the status, the lexer and the token \<^verbatim>\<open>*t\<close> after the call. The two
  \<^verbatim>\<open>strcpy\<close> calls write 14 and 10 bytes whatever \<^verbatim>\<open>TOKEN_LENGTH\<close> is: their
  branches are those of the source for \<open>14 \<le> TOKEN_LENGTH\<close>, and statements about
  them carry that bound. The last
  branch is the source's \<^verbatim>\<open>// TODO - parse character or string literal\<close>: it returns
  0 with the first character in \<^verbatim>\<open>t->contents\<close> and with \<^verbatim>\<open>t->length\<close> and
  \<^verbatim>\<open>t->type\<close> as the caller left them.
\<close>

definition lex :: "nat \<Rightarrow> Lexer \<Rightarrow> Token \<Rightarrow> status \<times> Lexer \<times> Token" where
  "lex TOKEN_LENGTH l t =
     (if unlexed_count l > 0 then
        (let l1 = l\<lparr>unlexed_count := unlexed_count l - 1\<rparr>
         in (Inr (), l1, unlexed l1 ! nat (unlexed_count l1)))
      else
        (case skip_to_token (fp l) of
           (rc, f1) \<Rightarrow>
             (case getc f1 of
                (None, f2) \<Rightarrow>
                  (Inr (), l\<lparr>fp := f2\<rparr>,
                   t\<lparr>contents := eof, length_t := strlen eof, type_t := TT_EOF\<rparr>)
              | (Some init, f2) \<Rightarrow>
                  if init = SPACE \<or> init = TAB then
                    (Inl InternalInvariantViolation, l\<lparr>fp := f2\<rparr>, t\<lparr>contents := []\<rparr>)
                  else if init = NEWLINE then
                    (Inr (), l\<lparr>fp := f2\<rparr>,
                     t\<lparr>contents := nline, length_t := strlen nline, type_t := TT_NEWLINE\<rparr>)
                  else if in_string init single_char_tokens then
                    (Inr (), l\<lparr>fp := f2\<rparr>,
                     t\<lparr>contents := [init], length_t := 1, type_t := ttype_one_char init\<rparr>)
                  else if is_valid_numeric_or_id_char init then
                    (case lex_id_loop TOKEN_LENGTH f2 [init] of
                       (Inl e, buf, f3) \<Rightarrow> (Inl e, l\<lparr>fp := f3\<rparr>, t\<lparr>contents := buf\<rparr>)
                     | (Inr c, buf, f3) \<Rightarrow>
                         (Inr (), l\<lparr>fp := ungetc c f3\<rparr>,
                          t\<lparr>contents := buf, type_t := ttype_many_chars (Some buf),
                            length_t := length buf\<rparr>))
                  else
                    (Inr (), l\<lparr>fp := f2\<rparr>, t\<lparr>contents := takeWhile (\<lambda>c. c \<noteq> NUL) [init]\<rparr>))))"

text \<open>\<^verbatim>\<open>unlex\<close>: the status and the lexer after the call.\<close>

definition unlex :: "nat \<Rightarrow> Lexer \<Rightarrow> Token \<Rightarrow> status \<times> Lexer" where
  "unlex TOKEN_PUTBACKS l t =
     (if unlexed_count l \<ge> int TOKEN_PUTBACKS then (Inl PushbackBufferFull, l)
      else
        (Inr (),
         l\<lparr>unlexed := (unlexed l)[nat (unlexed_count l) := t],
           unlexed_count := unlexed_count l + 1\<rparr>))"

subsection \<open>Sequences of calls\<close>

text \<open>
  What a caller does with one \<^verbatim>\<open>Token\<close> variable: \<open>unlex_all\<close> hands the tokens of a
  list to \<^verbatim>\<open>unlex\<close>, first to last; \<open>lex_times\<close> calls \<^verbatim>\<open>lex\<close> \<open>n\<close> times on the
  same variable. Both keep the status of every call.
\<close>

fun unlex_all :: "nat \<Rightarrow> Lexer \<Rightarrow> Token list \<Rightarrow> status list \<times> Lexer" where
  "unlex_all TOKEN_PUTBACKS l [] = ([], l)"
| "unlex_all TOKEN_PUTBACKS l (t # ts) =
     (case unlex TOKEN_PUTBACKS l t of
        (st, l1) \<Rightarrow>
          (case unlex_all TOKEN_PUTBACKS l1 ts of (sts, l2) \<Rightarrow> (st # sts, l2)))"

fun lex_times :: "nat \<Rightarrow> nat \<Rightarrow> Lexer \<Rightarrow> Token \<Rightarrow> (status \<times> Token) list \<times> Lexer" where
  "lex_times TOKEN_LENGTH 0 l t = ([], l)"
| "lex_times TOKEN_LENGTH (Suc n) l t =
     (case lex TOKEN_LENGTH l t of
        (st, l1, t1) \<Rightarrow>
          (case lex_times TOKEN_LENGTH n l1 t1 of (rs, l2) \<Rightarrow> ((st, t1) # rs, l2)))"

subsection \<open>Values for the examples\<close>

definition blank_token :: Token where
  "blank_token = \<lparr>contents = [], length_t = 0, type_t = TT_NO_TOKEN\<rparr>"

definition token_a :: Token where
  "token_a = \<lparr>contents = ''a'', length_t = 1, type_t = TT_IDENTIFIER\<rparr>"

definition token_semi :: Token where
  "token_semi = \<lparr>contents = '';'', length_t = 1, type_t = TT_SEMI\<rparr>"

text \<open>A lexer at the start of a file, with \<open>n\<close> putback slots, none in use.\<close>

definition lexer_on :: "nat \<Rightarrow> string \<Rightarrow> Lexer" where
  "lexer_on n s =
     \<lparr>fp = \<lparr>data = s, pos = 0\<rparr>, unlexed = replicate n blank_token, unlexed_count = 0\<rparr>"

subsection \<open>Notions for the statements\<close>

text \<open>What is left of the stream: the bytes from the cursor on.\<close>

definition rest_of :: "FILE \<Rightarrow> string" where
  "rest_of f = drop (pos f) (data f)"

text \<open>The characters \<^verbatim>\<open>skip_to_token\<close> and \<^verbatim>\<open>lex\<close> take for whitespace.\<close>

definition is_blank :: "char \<Rightarrow> bool" where
  "is_blank c = (c = SPACE \<or> c = TAB)"

text \<open>What \<^verbatim>\<open>getc\<close> returns on a stream with these bytes left: \<^verbatim>\<open>EOF\<close> on none.\<close>

fun next_char :: "string \<Rightarrow> char option" where
  "next_char [] = None"
| "next_char (c # cs) = Some c"

text \<open>
  The texts the classifier is asked about in the third and fourth rule of the
  specification: C strings with no period and no quote character.
\<close>

definition plain_text :: "string \<Rightarrow> bool" where
  "plain_text s = (NUL \<notin> set s \<and> CHR ''.'' \<notin> set s \<and> SQUOTE \<notin> set s \<and> DQUOTE \<notin> set s)"

text \<open>
  The third rule of the specification, in its words: the text is all decimal digits, or
  all decimal digits plus exactly one trailing u. The digits may be none: the empty text
  and the text "u" are of this form.
\<close>

definition spec_literal_text :: "string \<Rightarrow> bool" where
  "spec_literal_text s =
     (list_all is_digit s \<or> (s \<noteq> [] \<and> last s = CHR ''u'' \<and> list_all is_digit (butlast s)))"

text \<open>The characters that leave \<^verbatim>\<open>all_numeric\<close> set.\<close>

definition digit_or_u :: "char \<Rightarrow> bool" where
  "digit_or_u c = (is_digit c \<or> c = CHR ''u'')"

section \<open>The classifier\<close>

lemmas char_defs = NUL_def TAB_def NEWLINE_def SPACE_def DQUOTE_def SQUOTE_def STAR_def
  SLASH_def EOF_char_def

text \<open>
  C10. \<^verbatim>\<open>ttype_many_chars\<close> maps the one-character text "u" to \<open>TT_LITERAL\<close>: the
  character u is exempt from the all-numeric check, and the trailing-u rule asks for no
  digit before it.
\<close>

theorem ttype_many_chars_u: "ttype_many_chars (Some ''u'') = TT_LITERAL"
  by (simp add: NUL_def SQUOTE_def DQUOTE_def is_digit_def)

text \<open>
  The table of \<^verbatim>\<open>test_ttype_from_string\<close>.
\<close>

lemma ttype_from_string_table:
  "ttype_from_string ''1'' = TT_LITERAL" "ttype_from_string ''1.2'' = TT_LITERAL"
  "ttype_from_string ''1u'' = TT_LITERAL" "ttype_from_string ''1.2f'' = TT_LITERAL"
  "ttype_from_string ''1.f'' = TT_LITERAL"
  "ttype_from_string ([DQUOTE] @ ''Planck'' @ [DQUOTE]) = TT_LITERAL"
  "ttype_from_string ([SQUOTE] @ ''Language'' @ [SQUOTE]) = TT_LITERAL"
  "ttype_from_string ''Jaba'' = TT_IDENTIFIER" "ttype_from_string ''cat_'' = TT_IDENTIFIER"
  "ttype_from_string ''('' = TT_OPAREN" "ttype_from_string ''}'' = TT_CBRACE"
  "ttype_from_string '';'' = TT_SEMI"
  by (simp_all add: ttype_from_string_def strlen_def is_digit_def char_defs)

lemma many_chars_loop_plain:
  "plain_text s \<Longrightarrow>
   many_chars_loop s i an fs us =
     Done (i + length s) (an \<and> list_all digit_or_u s)
       (fs + count_list s (CHR ''f'')) (us + count_list s (CHR ''u''))"
proof (induction s arbitrary: i an fs us)
  case Nil
  show ?case by simp
next
  case (Cons c s)
  from Cons.prems have p: "plain_text s" and c: "c \<noteq> NUL" "c \<noteq> CHR ''.''" "c \<noteq> SQUOTE" "c \<noteq> DQUOTE"
    by (auto simp: plain_text_def)
  show ?case
    using c by (auto simp: Cons.IH [OF p] Let_def digit_or_u_def)
qed

lemma not_digit_u: "\<not> is_digit CHR ''u''"
  by (simp add: is_digit_def)

lemma digits_iff: "list_all is_digit s \<longleftrightarrow> list_all digit_or_u s \<and> count_list s CHR ''u'' = 0"
  by (induction s) (auto simp: digit_or_u_def not_digit_u)

lemma digits_u_iff:
  "s \<noteq> [] \<and> last s = CHR ''u'' \<and> list_all is_digit (butlast s) \<longleftrightarrow>
   list_all digit_or_u s \<and> count_list s CHR ''u'' = 1 \<and> s ! (length s - 1) = CHR ''u''"
proof (cases s rule: rev_cases)
  case Nil
  then show ?thesis by simp
next
  case (snoc xs x)
  then show ?thesis
    by (auto simp: digits_iff [of xs] digit_or_u_def not_digit_u)
qed

text \<open>
  C9. For a text with no period and no quote character, \<^verbatim>\<open>ttype_many_chars\<close> returns
  \<open>TT_LITERAL\<close> exactly when the text is all decimal digits, or all decimal digits
  followed by exactly one trailing u, and \<open>TT_IDENTIFIER\<close> for every other such text.
  Here the digits may be none, as C10 says for the text "u".
\<close>

theorem ttype_many_chars_plain:
  assumes "plain_text s"
  shows "ttype_many_chars (Some s) = (if spec_literal_text s then TT_LITERAL else TT_IDENTIFIER)"
proof -
  have "ttype_many_chars (Some s) =
      (if list_all digit_or_u s \<and>
          ((count_list s CHR ''u'' = 1 \<and> s ! (length s - 1) = CHR ''u'') \<or>
           count_list s CHR ''u'' = 0)
       then TT_LITERAL else TT_IDENTIFIER)"
    by (simp add: many_chars_loop_plain [OF assms])
  also have "\<dots> = (if spec_literal_text s then TT_LITERAL else TT_IDENTIFIER)"
    unfolding spec_literal_text_def digits_iff [of s] digits_u_iff by meson
  finally show ?thesis .
qed


theorem ttype_many_chars_plain_witness:
  "plain_text ''12u'' \<and> spec_literal_text ''12u'' \<and> ttype_many_chars (Some ''12u'') = TT_LITERAL \<and>
   plain_text ''120'' \<and> spec_literal_text ''120'' \<and> ttype_many_chars (Some ''120'') = TT_LITERAL \<and>
   plain_text ''1u2'' \<and> \<not> spec_literal_text ''1u2'' \<and>
   ttype_many_chars (Some ''1u2'') = TT_IDENTIFIER \<and>
   plain_text ''x1'' \<and> \<not> spec_literal_text ''x1'' \<and>
   ttype_many_chars (Some ''x1'') = TT_IDENTIFIER"
proof -
  have h: "plain_text ''12u''" "plain_text ''120''" "plain_text ''1u2''" "plain_text ''x1''"
    by (simp_all add: plain_text_def char_defs)
  have s: "spec_literal_text ''12u''" "spec_literal_text ''120''"
    "\<not> spec_literal_text ''1u2''" "\<not> spec_literal_text ''x1''"
    by (simp_all add: spec_literal_text_def is_digit_def)
  show ?thesis
    using h s ttype_many_chars_plain [OF h(1)] ttype_many_chars_plain [OF h(2)]
      ttype_many_chars_plain [OF h(3)] ttype_many_chars_plain [OF h(4)]
    by (simp only:) simp
qed

section \<open>The putback buffer\<close>

lemma lex_putback:
  "0 < unlexed_count l \<Longrightarrow>
   lex TL l t = (Inr (), l\<lparr>unlexed_count := unlexed_count l - 1\<rparr>,
                 unlexed l ! nat (unlexed_count l - 1))"
  by (simp add: lex_def)

lemma lex_unlexed_count:
  "unlexed_count (fst (snd (lex TL l t))) =
     (if 0 < unlexed_count l then unlexed_count l - 1 else unlexed_count l)"
  by (simp add: lex_def Let_def split: prod.split option.split sum.split)

lemma lex_times_snoc:
  "lex_times TL (Suc n) l t =
     (case lex_times TL n l t of
        (rs, l1) \<Rightarrow>
          (case lex TL l1 (if rs = [] then t else snd (last rs)) of
             (st, l2, t2) \<Rightarrow> (rs @ [(st, t2)], l2)))"
proof (induction n arbitrary: l t)
  case 0
  show ?case by (simp split: prod.splits)
next
  case (Suc n)
  obtain st l1 t1 where a: "lex TL l t = (st, l1, t1)"
    by (metis prod_cases3)
  obtain rs l2 where b: "lex_times TL n l1 t1 = (rs, l2)"
    by (metis surj_pair)
  obtain st2 l3 t3 where c: "lex TL l2 (if rs = [] then t1 else snd (last rs)) = (st2, l3, t3)"
    by (metis prod_cases3)
  have d: "lex_times TL (Suc n) l1 t1 = (rs @ [(st2, t3)], l3)"
    by (simp only: Suc.IH b c prod.case)
  have e: "lex_times TL (Suc n) l t = ((st, t1) # rs, l2)"
    by (simp add: a b)
  have "lex_times TL (Suc (Suc n)) l t = ((st, t1) # rs @ [(st2, t3)], l3)"
    by (simp only: lex_times.simps(2) [of TL "Suc n"] a d prod.case)
  moreover have "(if (st, t1) # rs = [] then t else snd (last ((st, t1) # rs))) =
      (if rs = [] then t1 else snd (last rs))"
    by simp
  ultimately show ?case
    by (simp only: e prod.case c) simp
qed

text \<open>
  Pushing a list of tokens and reading as many back: the reads return the list
  reversed, and leave the stream, the count and the slots below the count as they were.
\<close>

lemma unlex_all_lex_times:
  "length (unlexed l) = N \<Longrightarrow> 0 \<le> unlexed_count l \<Longrightarrow>
   unlexed_count l + int (length ts) \<le> int N \<Longrightarrow>
   \<exists>l1 l2. unlex_all N l ts = (replicate (length ts) (Inr ()), l1) \<and>
     lex_times TL (length ts) l1 t0 = (map (Pair (Inr ())) (rev ts), l2) \<and>
     fp l1 = fp l \<and> fp l2 = fp l \<and> unlexed_count l2 = unlexed_count l \<and>
     length (unlexed l2) = N \<and>
     take (nat (unlexed_count l)) (unlexed l2) = take (nat (unlexed_count l)) (unlexed l)"
proof (induction ts arbitrary: l t0)
  case Nil
  then show ?case by simp
next
  case (Cons t ts)
  let ?c = "unlexed_count l"
  let ?l' = "l\<lparr>unlexed := (unlexed l)[nat ?c := t], unlexed_count := ?c + 1\<rparr>"
  have u: "unlex N l t = (Inr (), ?l')"
    using Cons.prems by (simp add: unlex_def)
  have "length (unlexed ?l') = N" "0 \<le> unlexed_count ?l'"
    "unlexed_count ?l' + int (length ts) \<le> int N"
    using Cons.prems by simp_all
  from Cons.IH [OF this, of t0] obtain l1 l2 where
    a: "unlex_all N ?l' ts = (replicate (length ts) (Inr ()), l1)" and
    b: "lex_times TL (length ts) l1 t0 = (map (Pair (Inr ())) (rev ts), l2)" and
    c: "fp l1 = fp l" "fp l2 = fp l" "unlexed_count l2 = ?c + 1" "length (unlexed l2) = N" and
    d: "take (nat (?c + 1)) (unlexed l2) = take (nat (?c + 1)) ((unlexed l)[nat ?c := t])"
    by auto
  have "unlexed l2 ! nat ?c = take (nat (?c + 1)) (unlexed l2) ! nat ?c"
    using Cons.prems by simp
  also have "\<dots> = t"
    unfolding d using Cons.prems by simp
  finally have e: "unlexed l2 ! nat ?c = t" .
  have f: "lex TL l2 t' = (Inr (), l2\<lparr>unlexed_count := ?c\<rparr>, t)" for t'
    using c e Cons.prems by (simp add: lex_putback)
  have "take (nat ?c) (unlexed l2) = take (nat ?c) (take (nat (?c + 1)) (unlexed l2))"
    using Cons.prems by (simp add: min_def)
  also have "\<dots> = take (nat ?c) (unlexed l)"
    unfolding d using Cons.prems by (simp add: min_def)
  finally have g: "take (nat ?c) (unlexed l2) = take (nat ?c) (unlexed l)" .
  have "lex_times TL (length (t # ts)) l1 t0 =
      (map (Pair (Inr ())) (rev (t # ts)), l2\<lparr>unlexed_count := ?c\<rparr>)"
    by (simp only: length_Cons lex_times_snoc b prod.case f rev.simps map_append list.map)
  then show ?case
    using u a c g by simp
qed

text \<open>
  C2. For a lexer whose putback buffer is not full, \<^verbatim>\<open>unlex(t)\<close> followed by
  \<^verbatim>\<open>lex()\<close> succeeds and yields \<open>t\<close> (contents, length and kind, the whole record),
  and the stream is not touched. More generally, when the tokens \<open>ts\<close> fit in the free
  slots (\<open>k \<le> N\<close> on an empty buffer), every \<^verbatim>\<open>unlex\<close> succeeds, and \<open>k\<close> calls of
  \<^verbatim>\<open>lex\<close> then succeed and return \<open>ts\<close> last-in-first-out, whatever the token variable
  held; the stream and the count are afterwards what they were before the first
  \<^verbatim>\<open>unlex\<close>.
\<close>

theorem unlex_lex_round_trip:
  assumes "length (unlexed l) = N" and "0 \<le> unlexed_count l"
    and "unlexed_count l + int (length ts) \<le> int N"
  shows "\<exists>l1 l2. unlex_all N l ts = (replicate (length ts) (Inr ()), l1) \<and>
     lex_times TL (length ts) l1 t0 = (map (Pair (Inr ())) (rev ts), l2) \<and>
     fp l1 = fp l \<and> fp l2 = fp l \<and> unlexed_count l2 = unlexed_count l"
  using unlex_all_lex_times [OF assms, of TL t0] by blast

theorem unlex_lex_round_trip_witness:
  "length (unlexed (lexer_on 2 ''x'')) = 2 \<and> 0 \<le> unlexed_count (lexer_on 2 ''x'') \<and>
   unlexed_count (lexer_on 2 ''x'') + int (length [token_a, token_semi]) \<le> int 2 \<and>
   (\<exists>l1 l2. unlex_all 2 (lexer_on 2 ''x'') [token_a, token_semi] = ([Inr (), Inr ()], l1) \<and>
     lex_times 256 2 l1 blank_token = ([(Inr (), token_semi), (Inr (), token_a)], l2) \<and>
     fp l1 = \<lparr>data = ''x'', pos = 0\<rparr> \<and> fp l2 = \<lparr>data = ''x'', pos = 0\<rparr> \<and>
     unlexed_count l2 = 0)"
proof -
  have h: "length (unlexed (lexer_on 2 ''x'')) = 2" "0 \<le> unlexed_count (lexer_on 2 ''x'')"
    "unlexed_count (lexer_on 2 ''x'') + int (length [token_a, token_semi]) \<le> int 2"
    by (simp_all add: lexer_on_def)
  show ?thesis
    using h unlex_lex_round_trip [OF h, of 256 blank_token]
    by (simp add: lexer_on_def numeral_2_eq_2)
qed

text \<open>
  C8. If the buffer already holds \<open>N\<close> tokens, \<^verbatim>\<open>unlex\<close> fails with
  \<open>PushbackBufferFull\<close> and leaves the lexer as it was. Otherwise it succeeds, stores
  the token in the first free slot (the slots in use become the old ones followed by the
  token) and adds one to the count. So \<^verbatim>\<open>unlex\<close> and \<^verbatim>\<open>lex\<close> keep
  \<open>0 \<le> unlexed_count \<le> N\<close>.
\<close>

theorem unlex_bounded:
  "(int N \<le> unlexed_count l \<longrightarrow> unlex N l t = (Inl PushbackBufferFull, l)) \<and>
   (unlexed_count l < int N \<longrightarrow>
      unlex N l t =
        (Inr (), l\<lparr>unlexed := (unlexed l)[nat (unlexed_count l) := t],
                   unlexed_count := unlexed_count l + 1\<rparr>)) \<and>
   (0 \<le> unlexed_count l \<and> unlexed_count l < int N \<and> length (unlexed l) = N \<longrightarrow>
      take (nat (unlexed_count (snd (unlex N l t)))) (unlexed (snd (unlex N l t))) =
        take (nat (unlexed_count l)) (unlexed l) @ [t]) \<and>
   (0 \<le> unlexed_count l \<and> unlexed_count l \<le> int N \<longrightarrow>
      0 \<le> unlexed_count (snd (unlex N l t)) \<and>
      unlexed_count (snd (unlex N l t)) \<le> int N \<and>
      0 \<le> unlexed_count (fst (snd (lex TL l t'))) \<and>
      unlexed_count (fst (snd (lex TL l t'))) \<le> int N)"
proof -
  have "take (nat (unlexed_count l + 1)) ((unlexed l)[nat (unlexed_count l) := t]) =
      take (nat (unlexed_count l)) (unlexed l) @ [t]"
    if "0 \<le> unlexed_count l" "unlexed_count l < int N" "length (unlexed l) = N"
  proof -
    have "nat (unlexed_count l + 1) = Suc (nat (unlexed_count l))"
      using that by simp
    moreover have "nat (unlexed_count l) < length ((unlexed l)[nat (unlexed_count l) := t])"
      using that by simp
    ultimately show ?thesis
      by (simp add: take_Suc_conv_app_nth)
  qed
  then show ?thesis
    by (simp add: unlex_def lex_unlexed_count)
qed

theorem unlex_bounded_witness:
  "int 1 \<le> unlexed_count ((lexer_on 1 ''x'')\<lparr>unlexed_count := 1\<rparr>) \<and>
   unlex 1 ((lexer_on 1 ''x'')\<lparr>unlexed_count := 1\<rparr>) token_a =
     (Inl PushbackBufferFull, (lexer_on 1 ''x'')\<lparr>unlexed_count := 1\<rparr>) \<and>
   0 \<le> unlexed_count (lexer_on 1 ''x'') \<and> unlexed_count (lexer_on 1 ''x'') < int 1 \<and>
   length (unlexed (lexer_on 1 ''x'')) = 1 \<and>
   unlex 1 (lexer_on 1 ''x'') token_a =
     (Inr (), \<lparr>fp = \<lparr>data = ''x'', pos = 0\<rparr>, unlexed = [token_a], unlexed_count = 1\<rparr>) \<and>
   take (nat (unlexed_count (snd (unlex 1 (lexer_on 1 ''x'') token_a))))
     (unlexed (snd (unlex 1 (lexer_on 1 ''x'') token_a))) = [token_a] \<and>
   unlexed_count (snd (unlex 1 (lexer_on 1 ''x'') token_a)) \<le> int 1 \<and>
   0 \<le> unlexed_count (fst (snd (lex 256 (lexer_on 1 ''x'') blank_token))) \<and>
   unlexed_count (fst (snd (lex 256 (lexer_on 1 ''x'') blank_token))) \<le> int 1"
  using unlex_bounded [of 1 "(lexer_on 1 ''x'')\<lparr>unlexed_count := 1\<rparr>" token_a 256 blank_token]
    unlex_bounded [of 1 "lexer_on 1 ''x''" token_a 256 blank_token]
  by (simp add: lexer_on_def)

section \<open>The skip-scanner\<close>

lemma fgetc_rest:
  assumes "rest_of f = c # cs"
  shows "fgetc f = (Some c, f\<lparr>pos := pos f + 1\<rparr>)" and "rest_of (f\<lparr>pos := pos f + 1\<rparr>) = cs"
proof -
  have a: "pos f < length (data f)"
    using assms by (cases "pos f < length (data f)") (simp_all add: rest_of_def)
  then have "drop (pos f) (data f) = data f ! pos f # drop (Suc (pos f)) (data f)"
    by (simp add: Cons_nth_drop_Suc)
  then have "data f ! pos f = c" "drop (Suc (pos f)) (data f) = cs"
    using assms by (simp_all add: rest_of_def)
  then show "fgetc f = (Some c, f\<lparr>pos := pos f + 1\<rparr>)" and "rest_of (f\<lparr>pos := pos f + 1\<rparr>) = cs"
    using a by (simp_all add: fgetc_def rest_of_def)
qed

lemma rest_of_advance:
  assumes "rest_of f = xs @ ys"
  shows "rest_of (f\<lparr>pos := pos f + length xs\<rparr>) = ys"
proof -
  have "drop (pos f + length xs) (data f) = drop (length xs) (drop (pos f) (data f))"
    by (simp only: drop_drop add.commute)
  also have "\<dots> = drop (length xs) (xs @ ys)"
    using assms by (simp only: rest_of_def)
  also have "\<dots> = ys"
    by simp
  finally show ?thesis
    by (simp add: rest_of_def)
qed

lemma fgetc_rest_Nil:
  assumes "rest_of f = []"
  shows "fgetc f = (None, f)"
  using assms by (simp add: fgetc_def rest_of_def)

lemma skip_loop_blanks:
  "rest_of f = ws @ rest \<Longrightarrow> list_all is_blank ws \<Longrightarrow> prev \<noteq> SLASH \<Longrightarrow>
   skip_loop f prev 0 pass =
     skip_loop (f\<lparr>pos := pos f + length ws\<rparr>) (last (prev # ws)) 0 (pass - int (length ws))"
proof (induction ws arbitrary: f prev pass)
  case Nil
  then show ?case by simp
next
  case (Cons w ws)
  let ?f = "f\<lparr>pos := pos f + 1\<rparr>"
  from Cons.prems(1) have h: "rest_of f = w # (ws @ rest)"
    by simp
  note g = fgetc_rest(1) [OF h] and r = fgetc_rest(2) [OF h]
  have w: "w = SPACE \<or> w = TAB"
    using Cons.prems(2) by (simp add: is_blank_def)
  then have w': "w \<noteq> EOF_char" "w \<noteq> SLASH" "w \<noteq> STAR" "w \<noteq> NEWLINE"
    by (auto simp: char_defs)
  have c: "skip_chain w prev 0 pass = Some (0, pass)"
    using w' Cons.prems(3) by (simp add: skip_chain_def)
  have "skip_loop f prev 0 pass = skip_loop ?f w 0 (pass - 1)"
    by (subst skip_loop.simps) (use w w' in \<open>auto simp: g c\<close>)
  also have "\<dots> = skip_loop (?f\<lparr>pos := pos ?f + length ws\<rparr>) (last (w # ws)) 0
      (pass - 1 - int (length ws))"
    using Cons.prems(2) w' by (intro Cons.IH [OF r]) simp_all
  finally have e: "skip_loop f prev 0 pass =
      skip_loop (?f\<lparr>pos := pos ?f + length ws\<rparr>) (last (w # ws)) 0
        (pass - 1 - int (length ws))" .
  have x: "?f\<lparr>pos := pos ?f + length ws\<rparr> = f\<lparr>pos := pos f + length (w # ws)\<rparr>"
    and y: "last (w # ws) = last (prev # w # ws)"
    and z: "pass - 1 - int (length ws) = pass - int (length (w # ws))"
    by simp_all
  show ?case
    using e unfolding x y z .
qed


lemma skip_loop_token_start:
  assumes "rest_of f = c # rest" and "\<not> is_blank c" and "c \<noteq> SLASH" and "c \<noteq> EOF_char"
    and "prev \<noteq> SLASH"
  shows "skip_loop f prev 0 pass = (0, f)"
proof -
  from assms(1) have g: "fgetc f = (Some c, f\<lparr>pos := pos f + 1\<rparr>)"
    by (simp add: fgetc_rest)
  have "skip_chain c prev 0 pass = Some (0, pass)"
    using assms by (simp add: skip_chain_def)
  then show ?thesis
    by (subst skip_loop.simps) (use assms in \<open>simp add: g fseek_cur_def is_blank_def\<close>)
qed


lemma last_blank: "list_all is_blank (w # ws) \<Longrightarrow> last (w # ws) \<noteq> SLASH"
proof -
  assume a: "list_all is_blank (w # ws)"
  have "last (w # ws) \<in> set (w # ws)"
    by (rule last_in_set) simp
  then have "is_blank (last (w # ws))"
    using a by (simp only: list_all_iff)
  then show ?thesis
    by (auto simp: is_blank_def char_defs)
qed


lemma skip_to_token_start:
  assumes "rest_of f = ws @ c # rest" and "list_all is_blank ws"
    and "\<not> is_blank c" and "c \<noteq> SLASH" and "c \<noteq> EOF_char"
  shows "skip_to_token f = (0, f\<lparr>pos := pos f + length ws\<rparr>)"
proof (cases ws)
  case Nil
  from assms(1) Nil have g: "fgetc f = (Some c, f\<lparr>pos := pos f + 1\<rparr>)"
    by (simp add: fgetc_rest)
  show ?thesis
    using assms(3-5) Nil by (simp add: skip_to_token_def g fseek_cur_def is_blank_def)
next
  case (Cons w ws')
  let ?f = "f\<lparr>pos := pos f + 1\<rparr>"
  let ?g = "?f\<lparr>pos := pos ?f + length ws'\<rparr>"
  from assms(1) Cons have h: "rest_of f = w # (ws' @ c # rest)"
    by simp
  note g = fgetc_rest(1) [OF h] and r = fgetc_rest(2) [OF h]
  have w: "w = SPACE \<or> w = TAB" and b: "list_all is_blank ws'"
    using assms(2) Cons by (simp_all add: is_blank_def)
  then have w': "w \<noteq> EOF_char" "w \<noteq> SLASH"
    by (auto simp: char_defs)
  have "list_all is_blank (w # ws')"
    using assms(2) Cons by simp
  then have l: "last (w # ws') \<noteq> SLASH"
    by (rule last_blank)
  have r': "rest_of ?g = c # rest"
    by (rule rest_of_advance [OF r])
  have "skip_to_token f = skip_loop ?f w 0 0"
    using w w' by (auto simp: skip_to_token_def g)
  also have "\<dots> = skip_loop ?g (last (w # ws')) 0 (0 - int (length ws'))"
    by (rule skip_loop_blanks [OF r b w'(2)])
  also have "\<dots> = (0, ?g)"
    by (rule skip_loop_token_start [OF r' assms(3-5) l])
  finally have e: "skip_to_token f = (0, ?g)" .
  have x: "?g = f\<lparr>pos := pos f + length ws\<rparr>"
    using Cons by simp
  show ?thesis
    using e unfolding x .
qed




section \<open>The token reader\<close>

lemma not_valid_chars:
  "\<not> is_valid_numeric_or_id_char SPACE" "\<not> is_valid_numeric_or_id_char TAB"
  "\<not> is_valid_numeric_or_id_char NEWLINE" "\<not> is_valid_numeric_or_id_char SLASH"
  "\<not> is_valid_numeric_or_id_char EOF_char" "\<not> is_valid_numeric_or_id_char NUL"
  "\<not> is_valid_numeric_or_id_char CHR ''(''" "\<not> is_valid_numeric_or_id_char CHR '')''"
  "\<not> is_valid_numeric_or_id_char CHR ''{''" "\<not> is_valid_numeric_or_id_char CHR ''}''"
  "\<not> is_valid_numeric_or_id_char CHR ''[''" "\<not> is_valid_numeric_or_id_char CHR '']''"
  "\<not> is_valid_numeric_or_id_char CHR '';''"
  by (simp_all add: is_valid_numeric_or_id_char_def isalnum_def char_defs)

lemma in_single_char_tokens:
  "in_string c single_char_tokens \<longleftrightarrow>
   c = CHR ''('' \<or> c = CHR '')'' \<or> c = CHR ''{'' \<or> c = CHR ''}'' \<or> c = CHR ''['' \<or>
   c = CHR '']'' \<or> c = CHR '';''"
  by (simp add: single_char_tokens_def NUL_def eq_commute [of _ c])

lemma valid_char_facts:
  assumes "is_valid_numeric_or_id_char c"
  shows "c \<noteq> SPACE" "c \<noteq> TAB" "c \<noteq> NEWLINE" "c \<noteq> SLASH" "c \<noteq> EOF_char" "c \<noteq> NUL"
    "\<not> is_blank c" "\<not> in_string c single_char_tokens"
  using assms not_valid_chars unfolding in_single_char_tokens is_blank_def
  by blast+


lemma lex_id_loop_overflow:
  "rest_of f = run @ rest \<Longrightarrow> list_all is_valid_numeric_or_id_char run \<Longrightarrow> run \<noteq> [] \<Longrightarrow>
   TL \<le> length buf + length run \<Longrightarrow>
   lex_id_loop TL f buf =
     (Inl IdentifierTooLong, buf @ take (TL - 1 - length buf) run,
      f\<lparr>pos := pos f + (TL - 1 - length buf) + 1\<rparr>)"
proof (induction run arbitrary: f buf)
  case Nil
  then show ?case by simp
next
  case (Cons r run)
  let ?f = "f\<lparr>pos := pos f + 1\<rparr>"
  from Cons.prems(1) have h: "rest_of f = r # (run @ rest)"
    by simp
  note g = fgetc_rest(1) [OF h] and n = fgetc_rest(2) [OF h]
  have v: "is_valid_numeric_or_id_char r" and vs: "list_all is_valid_numeric_or_id_char run"
    using Cons.prems(2) by simp_all
  show ?case
  proof (cases "TL \<le> length buf + 1")
    case True
    then have "TL - 1 - length buf = 0"
      by simp
    moreover have "lex_id_loop TL f buf = (Inl IdentifierTooLong, buf, ?f)"
      by (subst lex_id_loop.simps) (use True v in \<open>simp add: getc_def g\<close>)
    ultimately show ?thesis
      by simp
  next
    case False
    then have ne: "run \<noteq> []" and le: "TL \<le> length (buf @ [r]) + length run"
      using Cons.prems(4) by auto
    have "lex_id_loop TL f buf = lex_id_loop TL ?f (buf @ [r])"
      by (subst lex_id_loop.simps) (use False v in \<open>simp add: getc_def g\<close>)
    also have "\<dots> = (Inl IdentifierTooLong,
        (buf @ [r]) @ take (TL - 1 - length (buf @ [r])) run,
        ?f\<lparr>pos := pos ?f + (TL - 1 - length (buf @ [r])) + 1\<rparr>)"
      by (rule Cons.IH [OF n vs ne le])
    finally have e: "lex_id_loop TL f buf = (Inl IdentifierTooLong,
        (buf @ [r]) @ take (TL - 1 - length (buf @ [r])) run,
        ?f\<lparr>pos := pos ?f + (TL - 1 - length (buf @ [r])) + 1\<rparr>)" .
    have k: "TL - 1 - length buf = Suc (TL - 1 - length (buf @ [r]))"
      using False by simp
    have x: "(buf @ [r]) @ take (TL - 1 - length (buf @ [r])) run =
        buf @ take (TL - 1 - length buf) (r # run)"
      unfolding k by simp
    have y: "?f\<lparr>pos := pos ?f + (TL - 1 - length (buf @ [r])) + 1\<rparr> =
        f\<lparr>pos := pos f + (TL - 1 - length buf) + 1\<rparr>"
      unfolding k by simp
    show ?thesis
      using e unfolding x y .
  qed
qed

lemma lex_id_loop_fits:
  "rest_of f = run @ rest \<Longrightarrow> list_all is_valid_numeric_or_id_char run \<Longrightarrow>
   \<not> is_valid_numeric_or_id_char (to_char (next_char rest)) \<Longrightarrow>
   length buf + length run < TL \<or> run = [] \<Longrightarrow>
   lex_id_loop TL f buf =
     (Inr (next_char rest), buf @ run, f\<lparr>pos := pos f + length run + length (take 1 rest)\<rparr>)"
proof (induction run arbitrary: f buf)
  case Nil
  show ?case
  proof (cases rest)
    case Nil
    with Nil.prems(1) have "fgetc f = (None, f)"
      by (simp add: fgetc_rest_Nil)
    then show ?thesis
      using Nil.prems(3) Nil by (subst lex_id_loop.simps) (simp add: getc_def)
  next
    case (Cons r rs)
    with Nil.prems(1) have h: "rest_of f = r # rs"
      by simp
    show ?thesis
      using Nil.prems(3) Cons
      by (subst lex_id_loop.simps) (simp add: getc_def fgetc_rest(1) [OF h])
  qed
next
  case (Cons r run)
  let ?f = "f\<lparr>pos := pos f + 1\<rparr>"
  from Cons.prems(1) have h: "rest_of f = r # (run @ rest)"
    by simp
  note g = fgetc_rest(1) [OF h] and n = fgetc_rest(2) [OF h]
  have v: "is_valid_numeric_or_id_char r" and vs: "list_all is_valid_numeric_or_id_char run"
    using Cons.prems(2) by simp_all
  have lt: "length buf + 1 < TL"
    using Cons.prems(4) by simp
  have fit: "length (buf @ [r]) + length run < TL \<or> run = []"
    using Cons.prems(4) by simp
  have "lex_id_loop TL f buf = lex_id_loop TL ?f (buf @ [r])"
    by (subst lex_id_loop.simps) (use lt v in \<open>simp add: getc_def g\<close>)
  also have "\<dots> = (Inr (next_char rest), (buf @ [r]) @ run,
      ?f\<lparr>pos := pos ?f + length run + length (take 1 rest)\<rparr>)"
    by (rule Cons.IH [OF n vs Cons.prems(3) fit])
  finally have e: "lex_id_loop TL f buf = (Inr (next_char rest), (buf @ [r]) @ run,
      ?f\<lparr>pos := pos ?f + length run + length (take 1 rest)\<rparr>)" .
  have x: "(buf @ [r]) @ run = buf @ r # run"
    by simp
  have y: "?f\<lparr>pos := pos ?f + length run + length (take 1 rest)\<rparr> =
      f\<lparr>pos := pos f + length (r # run) + length (take 1 rest)\<rparr>"
    by simp
  show ?case
    using e unfolding x y .
qed

text \<open>Evaluation of the lexer on a given stream.\<close>

lemmas lex_eval = lex_def skip_to_token_def skip_loop.simps skip_chain_def lex_id_loop.simps
  fgetc_def getc_def fseek_cur_def is_valid_numeric_or_id_char_def isalnum_def is_digit_def
  single_char_tokens_def eof_def nline_def strlen_def char_defs

lemma skip_to_token_exhausted:
  "length (data f) \<le> pos f \<Longrightarrow> skip_to_token f = (- 1, f)"
  by (simp add: skip_to_token_def fgetc_def)

text \<open>
  C6. On a stream that is empty or exhausted, with no token put back, \<^verbatim>\<open>lex\<close> returns
  success with the token "[end of file]", the length of that string and the kind
  \<open>TT_EOF\<close>. The lexer is left as it was, so every further call returns the same token.
  The buffer has room for the text and its terminator: \<open>14 \<le> TOKEN_LENGTH\<close>.
\<close>

theorem lex_end_of_input:
  assumes "14 \<le> TOKEN_LENGTH"
    and "unlexed_count l \<le> 0" and "length (data (fp l)) \<le> pos (fp l)"
  shows "lex TOKEN_LENGTH l t =
      (Inr (), l, \<lparr>contents = ''[end of file]'', length_t = length ''[end of file]'',
                   type_t = TT_EOF\<rparr>) \<and>
    lex_times TOKEN_LENGTH n l t =
      (replicate n (Inr (), \<lparr>contents = ''[end of file]'', length_t = length ''[end of file]'',
                              type_t = TT_EOF\<rparr>), l)"
proof -
  let ?e = "\<lparr>contents = ''[end of file]'', length_t = length ''[end of file]'', type_t = TT_EOF\<rparr>"
  have a: "lex TOKEN_LENGTH l t' = (Inr (), l, ?e)" for t'
    using assms(2,3)
    by (simp add: lex_def skip_to_token_exhausted getc_def fgetc_def eof_def strlen_def NUL_def)
  have "lex_times TOKEN_LENGTH n l t' = (replicate n (Inr (), ?e), l)" for t'
    by (induction n arbitrary: t') (simp_all add: a)
  with a show ?thesis
    by simp
qed

theorem lex_end_of_input_witness:
  "(14::nat) \<le> 256 \<and> unlexed_count (lexer_on 1 []) \<le> 0 \<and>
   length (data (fp (lexer_on 1 []))) \<le> pos (fp (lexer_on 1 [])) \<and>
   lex 256 (lexer_on 1 []) blank_token =
     (Inr (), lexer_on 1 [], \<lparr>contents = ''[end of file]'', length_t = 13, type_t = TT_EOF\<rparr>) \<and>
   lex_times 256 2 (lexer_on 1 []) blank_token =
     (replicate 2 (Inr (), \<lparr>contents = ''[end of file]'', length_t = 13, type_t = TT_EOF\<rparr>),
      lexer_on 1 [])"
proof -
  have h: "(14::nat) \<le> 256" "unlexed_count (lexer_on 1 []) \<le> 0"
    "length (data (fp (lexer_on 1 []))) \<le> pos (fp (lexer_on 1 []))"
    by (simp_all add: lexer_on_def)
  have "length ''[end of file]'' = 13"
    by simp
  with h lex_end_of_input [OF h, of blank_token 2] show ?thesis
    by (simp only:)
qed

text \<open>
  C5. Lexing \<^verbatim>\<open>a//c\<close>, a newline, \<^verbatim>\<open>b\<close> gives the identifier "a", a newline token, the
  identifier "b" and then the end of input: the newline that ends the line comment is
  not consumed by \<^verbatim>\<open>skip_to_token\<close>, it is the next token. The buffer has room for
  the texts "[newline]" and "[end of file]" with their terminators: \<open>14 \<le> TOKEN_LENGTH\<close>.
\<close>

theorem lex_line_comment:
  assumes "14 \<le> TOKEN_LENGTH"
  shows "lex_times TOKEN_LENGTH 4
     \<lparr>fp = \<lparr>data = ''a//c'' @ [NEWLINE] @ ''b'', pos = 0\<rparr>, unlexed = us, unlexed_count = 0\<rparr> t =
   ([(Inr (), \<lparr>contents = ''a'', length_t = 1, type_t = TT_IDENTIFIER\<rparr>),
     (Inr (), \<lparr>contents = ''[newline]'', length_t = 9, type_t = TT_NEWLINE\<rparr>),
     (Inr (), \<lparr>contents = ''b'', length_t = 1, type_t = TT_IDENTIFIER\<rparr>),
     (Inr (), \<lparr>contents = ''[end of file]'', length_t = 13, type_t = TT_EOF\<rparr>)],
    \<lparr>fp = \<lparr>data = ''a//c'' @ [NEWLINE] @ ''b'', pos = 6\<rparr>, unlexed = us, unlexed_count = 0\<rparr>)"
  by (simp add: eval_nat_numeral lex_eval)

theorem lex_line_comment_witness:
  "(14::nat) \<le> 256 \<and>
   lex_times 256 4
     \<lparr>fp = \<lparr>data = ''a//c'' @ [NEWLINE] @ ''b'', pos = 0\<rparr>, unlexed = [blank_token],
       unlexed_count = 0\<rparr> blank_token =
   ([(Inr (), \<lparr>contents = ''a'', length_t = 1, type_t = TT_IDENTIFIER\<rparr>),
     (Inr (), \<lparr>contents = ''[newline]'', length_t = 9, type_t = TT_NEWLINE\<rparr>),
     (Inr (), \<lparr>contents = ''b'', length_t = 1, type_t = TT_IDENTIFIER\<rparr>),
     (Inr (), \<lparr>contents = ''[end of file]'', length_t = 13, type_t = TT_EOF\<rparr>)],
    \<lparr>fp = \<lparr>data = ''a//c'' @ [NEWLINE] @ ''b'', pos = 6\<rparr>, unlexed = [blank_token],
      unlexed_count = 0\<rparr>)"
proof -
  have h: "(14::nat) \<le> 256"
    by simp
  from h lex_line_comment [OF h, of "[blank_token]" blank_token] show ?thesis
    by (simp only:)
qed

text \<open>
  C3. The claim is that the whitespace check of \<^verbatim>\<open>lex\<close> never fires after
  \<^verbatim>\<open>skip_to_token\<close> has returned 0. On \<^verbatim>\<open>a / b\<close> it does: the second call skips the
  space, reads the slash, finds a space after it, seeks back by one and returns 0 with the
  cursor on that space (its fourth branch, "Token was a slash without a * or / following
  it"); \<^verbatim>\<open>lex\<close> reads the space and returns -1 with the internal error.
\<close>

theorem lex_whitespace_error_reachable:
  "skip_to_token \<lparr>data = ''a / b'', pos = 1\<rparr> = (0, \<lparr>data = ''a / b'', pos = 3\<rparr>) \<and>
   lex_times TL 2 \<lparr>fp = \<lparr>data = ''a / b'', pos = 0\<rparr>, unlexed = us, unlexed_count = 0\<rparr> t =
   ([(Inr (), \<lparr>contents = ''a'', length_t = 1, type_t = TT_IDENTIFIER\<rparr>),
     (Inl InternalInvariantViolation, \<lparr>contents = [], length_t = 1, type_t = TT_IDENTIFIER\<rparr>)],
    \<lparr>fp = \<lparr>data = ''a / b'', pos = 4\<rparr>, unlexed = us, unlexed_count = 0\<rparr>)"
  by (simp add: eval_nat_numeral lex_eval)

text \<open>The same after a block comment that a space follows.\<close>

lemma lex_whitespace_error_after_comment:
  "lex_times TL 1 \<lparr>fp = \<lparr>data = ''/* x */ y'', pos = 0\<rparr>, unlexed = us, unlexed_count = 0\<rparr> t =
   ([(Inl InternalInvariantViolation, t\<lparr>contents := []\<rparr>)],
    \<lparr>fp = \<lparr>data = ''/* x */ y'', pos = 8\<rparr>, unlexed = us, unlexed_count = 0\<rparr>)"
  by (simp add: eval_nat_numeral lex_eval)

lemma not_valid_quote: "q = DQUOTE \<or> q = SQUOTE \<Longrightarrow> \<not> is_valid_numeric_or_id_char q"
  by (auto simp: is_valid_numeric_or_id_char_def isalnum_def char_defs)

text \<open>
  C1, as stated, fails. On an unterminated literal \<^verbatim>\<open>"abc\<close> the call returns success,
  not an error; on \<^verbatim>\<open>"ab"\<close> it returns success with the opening quote alone as contents
  and a kind that is not \<open>TT_LITERAL\<close>. In both the cursor is behind the opening quote.
\<close>

theorem lex_quote_counterexample:
  "lex 256 (lexer_on 5 ([DQUOTE] @ ''abc'')) blank_token =
     (Inr (), (lexer_on 5 ([DQUOTE] @ ''abc''))\<lparr>fp := \<lparr>data = [DQUOTE] @ ''abc'', pos = 1\<rparr>\<rparr>,
      \<lparr>contents = [DQUOTE], length_t = 0, type_t = TT_NO_TOKEN\<rparr>) \<and>
   lex 256 (lexer_on 5 ([DQUOTE] @ ''ab'' @ [DQUOTE])) blank_token =
     (Inr (), (lexer_on 5 ([DQUOTE] @ ''ab'' @ [DQUOTE]))\<lparr>fp := \<lparr>data = [DQUOTE] @ ''ab'' @ [DQUOTE], pos = 1\<rparr>\<rparr>,
      \<lparr>contents = [DQUOTE], length_t = 0, type_t = TT_NO_TOKEN\<rparr>)"
  by (simp add: lex_eval lexer_on_def blank_token_def)

text \<open>
  C1, amended. For a stream on which only spaces and tabs stand before a quote
  character, \<^verbatim>\<open>lex\<close> scans no literal (the source leaves it as a TODO): it consumes the
  blanks and the quote alone and returns success with that one character as the contents
  of the token, also when no closing quote follows.
\<close>

theorem lex_quote:
  assumes "unlexed_count l \<le> 0" and "rest_of (fp l) = ws @ q # rest" and "list_all is_blank ws"
    and "q = DQUOTE \<or> q = SQUOTE"
  shows "fst (lex TL l t) = Inr () \<and>
    fst (snd (lex TL l t)) = l\<lparr>fp := (fp l)\<lparr>pos := pos (fp l) + length ws + 1\<rparr>\<rparr> \<and>
    contents (snd (snd (lex TL l t))) = [q]"
proof -
  let ?f = "(fp l)\<lparr>pos := pos (fp l) + length ws\<rparr>"
  have n: "\<not> in_string q single_char_tokens" "\<not> is_valid_numeric_or_id_char q"
    "q \<noteq> SPACE" "q \<noteq> TAB" "q \<noteq> NEWLINE" "q \<noteq> NUL" "q \<noteq> SLASH" "q \<noteq> EOF_char" "\<not> is_blank q"
    using assms(4) by (auto simp: in_single_char_tokens not_valid_quote is_blank_def char_defs)
  have s: "skip_to_token (fp l) = (0, ?f)"
    by (rule skip_to_token_start [OF assms(2,3) n(9,7,8)])
  have "rest_of ?f = q # rest"
    by (rule rest_of_advance [OF assms(2)])
  then have g: "getc ?f = (Some q, (fp l)\<lparr>pos := pos (fp l) + length ws + 1\<rparr>)"
    using fgetc_rest(1) [of ?f q rest] by (simp add: getc_def)
  show ?thesis
    using assms(1) by (simp add: lex_def s g n)
qed

theorem lex_quote_witness:
  "unlexed_count (lexer_on 1 ('' '' @ [DQUOTE] @ ''ab'')) \<le> 0 \<and>
   rest_of (fp (lexer_on 1 ('' '' @ [DQUOTE] @ ''ab''))) = '' '' @ DQUOTE # ''ab'' \<and>
   list_all is_blank '' '' \<and> (DQUOTE = DQUOTE \<or> DQUOTE = SQUOTE) \<and>
   fst (lex 256 (lexer_on 1 ('' '' @ [DQUOTE] @ ''ab'')) blank_token) = Inr () \<and>
   fst (snd (lex 256 (lexer_on 1 ('' '' @ [DQUOTE] @ ''ab'')) blank_token)) =
     \<lparr>fp = \<lparr>data = '' '' @ [DQUOTE] @ ''ab'', pos = 2\<rparr>, unlexed = [blank_token],
       unlexed_count = 0\<rparr> \<and>
   contents (snd (snd (lex 256 (lexer_on 1 ('' '' @ [DQUOTE] @ ''ab'')) blank_token))) =
     [DQUOTE]"
proof -
  have h: "unlexed_count (lexer_on 1 ('' '' @ [DQUOTE] @ ''ab'')) \<le> 0"
    "rest_of (fp (lexer_on 1 ('' '' @ [DQUOTE] @ ''ab''))) = '' '' @ DQUOTE # ''ab''"
    "list_all is_blank '' ''" "DQUOTE = DQUOTE \<or> DQUOTE = SQUOTE"
    by (simp_all add: lexer_on_def rest_of_def is_blank_def char_defs)
  show ?thesis
    using h lex_quote [OF h, of 256 blank_token] by (simp add: lexer_on_def)
qed

text \<open>
  C7. \<^verbatim>\<open>t->contents\<close> holds at most \<open>TOKEN_LENGTH - 1\<close> characters before its
  terminator (the specification's MAX_TOKEN_LEN). A run of identifier characters
  (alphanumeric, underscore, period) of \<open>TOKEN_LENGTH\<close> characters or more makes \<^verbatim>\<open>lex\<close>
  fail with \<open>IdentifierTooLong\<close>, whatever follows the run: no token is returned, length
  and kind of \<^verbatim>\<open>*t\<close> are left as they were, and the contents hold the first
  \<open>TOKEN_LENGTH - 1\<close> characters of the run. \<open>TOKEN_LENGTH\<close> is at least 2 here: with
  1 the buffer has no room for a character at all.
\<close>

theorem lex_identifier_too_long:
  assumes "unlexed_count l \<le> 0" and "rest_of (fp l) = ws @ run @ rest"
    and "list_all is_blank ws" and "list_all is_valid_numeric_or_id_char run"
    and "2 \<le> TOKEN_LENGTH" and "TOKEN_LENGTH \<le> length run"
  shows "lex TOKEN_LENGTH l t =
    (Inl IdentifierTooLong,
     l\<lparr>fp := (fp l)\<lparr>pos := pos (fp l) + length ws + TOKEN_LENGTH\<rparr>\<rparr>,
     t\<lparr>contents := take (TOKEN_LENGTH - 1) run\<rparr>)"
proof -
  obtain r run' where run: "run = r # run'" and ne: "run' \<noteq> []"
    using assms(5,6) by (cases run; cases "tl run") auto
  let ?f = "(fp l)\<lparr>pos := pos (fp l) + length ws\<rparr>"
  let ?f2 = "(fp l)\<lparr>pos := Suc (pos (fp l) + length ws)\<rparr>"
  have v: "is_valid_numeric_or_id_char r" and vs: "list_all is_valid_numeric_or_id_char run'"
    using assms(4) run by simp_all
  note n = valid_char_facts [OF v]
  have h: "rest_of (fp l) = ws @ r # (run' @ rest)"
    using assms(2) run by simp
  have s: "skip_to_token (fp l) = (0, ?f)"
    by (rule skip_to_token_start [OF h assms(3) n(7,4,5)])
  have r1: "rest_of ?f = r # (run' @ rest)"
    by (rule rest_of_advance [OF h])
  have g: "getc ?f = (Some r, ?f2)"
    using fgetc_rest(1) [OF r1] by (simp add: getc_def)
  have r2: "rest_of ?f2 = run' @ rest"
    using fgetc_rest(2) [OF r1] by simp
  have le: "TOKEN_LENGTH \<le> length [r] + length run'"
    using assms(6) run by simp
  have i: "lex_id_loop TOKEN_LENGTH ?f2 [r] =
      (Inl IdentifierTooLong, take (TOKEN_LENGTH - 1) run,
       (fp l)\<lparr>pos := pos (fp l) + length ws + TOKEN_LENGTH\<rparr>)"
    using lex_id_loop_overflow [OF r2 vs ne le] assms(5) run by (simp add: take_Cons')
  show ?thesis
    using assms(1) by (simp add: lex_def s g n v i)
qed

theorem lex_identifier_too_long_witness:
  "unlexed_count (lexer_on 1 '' abcde;'') \<le> 0 \<and>
   rest_of (fp (lexer_on 1 '' abcde;'')) = '' '' @ ''abcde'' @ '';'' \<and>
   list_all is_blank '' '' \<and> list_all is_valid_numeric_or_id_char ''abcde'' \<and>
   (2::nat) \<le> 5 \<and> 5 \<le> length ''abcde'' \<and>
   lex 5 (lexer_on 1 '' abcde;'') blank_token =
     (Inl IdentifierTooLong,
      \<lparr>fp = \<lparr>data = '' abcde;'', pos = 6\<rparr>, unlexed = [blank_token], unlexed_count = 0\<rparr>,
      \<lparr>contents = ''abcd'', length_t = 0, type_t = TT_NO_TOKEN\<rparr>)"
proof -
  have h: "unlexed_count (lexer_on 1 '' abcde;'') \<le> 0"
    "rest_of (fp (lexer_on 1 '' abcde;'')) = '' '' @ ''abcde'' @ '';''"
    "list_all is_blank '' ''" "list_all is_valid_numeric_or_id_char ''abcde''"
    "(2::nat) \<le> 5" "5 \<le> length ''abcde''"
    by (simp_all add: lexer_on_def rest_of_def is_blank_def is_valid_numeric_or_id_char_def
        isalnum_def char_defs)
  show ?thesis
    using h lex_identifier_too_long [OF h, of blank_token]
    by (simp add: lexer_on_def blank_token_def)
qed

text \<open>The bound is sharp: a shorter run that ends is returned whole.\<close>

lemma lex_identifier_fits:
  assumes "unlexed_count l \<le> 0" and "rest_of (fp l) = ws @ run @ rest"
    and "list_all is_blank ws" and "list_all is_valid_numeric_or_id_char run" and "run \<noteq> []"
    and "\<not> is_valid_numeric_or_id_char (to_char (next_char rest))"
    and "length run < TOKEN_LENGTH"
  shows "lex TOKEN_LENGTH l t =
    (Inr (), l\<lparr>fp := (fp l)\<lparr>pos := pos (fp l) + length ws + length run\<rparr>\<rparr>,
     t\<lparr>contents := run, type_t := ttype_many_chars (Some run), length_t := length run\<rparr>)"
proof -
  obtain r run' where run: "run = r # run'"
    using assms(5) by (cases run) auto
  let ?f = "(fp l)\<lparr>pos := pos (fp l) + length ws\<rparr>"
  let ?f2 = "(fp l)\<lparr>pos := Suc (pos (fp l) + length ws)\<rparr>"
  have v: "is_valid_numeric_or_id_char r" and vs: "list_all is_valid_numeric_or_id_char run'"
    using assms(4) run by simp_all
  note n = valid_char_facts [OF v]
  have h: "rest_of (fp l) = ws @ r # (run' @ rest)"
    using assms(2) run by simp
  have s: "skip_to_token (fp l) = (0, ?f)"
    by (rule skip_to_token_start [OF h assms(3) n(7,4,5)])
  have r1: "rest_of ?f = r # (run' @ rest)"
    by (rule rest_of_advance [OF h])
  have g: "getc ?f = (Some r, ?f2)"
    using fgetc_rest(1) [OF r1] by (simp add: getc_def)
  have r2: "rest_of ?f2 = run' @ rest"
    using fgetc_rest(2) [OF r1] by simp
  have fit: "length [r] + length run' < TOKEN_LENGTH \<or> run' = []"
    using assms(7) run by simp
  have i: "lex_id_loop TOKEN_LENGTH ?f2 [r] =
      (Inr (next_char rest), run,
       (fp l)\<lparr>pos := pos (fp l) + length ws + length run + length (take 1 rest)\<rparr>)"
    using lex_id_loop_fits [OF r2 vs assms(6) fit] run by simp
  show ?thesis
    using assms(1)
    by (cases rest) (simp_all add: lex_def s g n v i del: ttype_many_chars.simps)
qed

end
